theory Spec2Isabelle
  imports Main "HOL-Library.Sublist" "HOL-Library.List_Lexorder" "HOL-Library.Product_Lexorder"
begin

section \<open>Python values as the scanner sees them\<close>

text \<open>
  \<^verbatim>\<open>ast_find_dangerous_calls\<close> is duck typed: it never looks at the class of a node, only at the
  attributes the object carries (\<^verbatim>\<open>hasattr\<close>, \<^verbatim>\<open>getattr\<close>, \<^verbatim>\<open>__dict__\<close>). A value is therefore a
  scalar, a list, or an object given by its \<^verbatim>\<open>__dict__\<close>: the attributes in insertion order.

  The objects are those of the trees that \<^verbatim>\<open>run_deep_mode\<close> passes in, which the parser builds:
  nodes, and the location and position objects hanging off them. Their class answers every
  attribute that is not in \<^verbatim>\<open>__dict__\<close> with \<^verbatim>\<open>None\<close> instead of raising, so \<^verbatim>\<open>hasattr\<close> holds
  of such an object for any name. The builtin scalars and lists carry none of the attribute
  names the scanner asks for, and raise \<^verbatim>\<open>AttributeError\<close>.
\<close>

datatype pyval =
    PNone
  | PBool bool
  | PInt int
  | PStr string
  | PList "pyval list"
  | PObj "(string \<times> pyval) list"

datatype error =
    AttributeError
  | RecursionError
  | OSError
  | UnicodeDecodeError
  | UnicodeEncodeError
  | ReError

text \<open>The entry of an attribute in \<^verbatim>\<open>__dict__\<close>, when there is one.\<close>

fun lookup_attr :: "pyval \<Rightarrow> string \<Rightarrow> pyval option" where
  "lookup_attr (PObj kvs) k = map_of kvs k"
| "lookup_attr _ k = None"

text \<open>The attribute access \<^verbatim>\<open>v.k\<close>.\<close>

fun attr :: "pyval \<Rightarrow> string \<Rightarrow> error + pyval" where
  "attr (PObj kvs) k = Inr (case map_of kvs k of Some x \<Rightarrow> x | None \<Rightarrow> PNone)"
| "attr _ k = Inl AttributeError"

fun hasattr :: "pyval \<Rightarrow> string \<Rightarrow> bool" where
  "hasattr (PObj kvs) k = True"
| "hasattr _ k = False"

text \<open>The three-argument \<^verbatim>\<open>getattr(v, k, d)\<close>.\<close>

definition getattr :: "pyval \<Rightarrow> string \<Rightarrow> pyval \<Rightarrow> pyval" where
  "getattr v k d = (case attr v k of Inr x \<Rightarrow> x | Inl e \<Rightarrow> d)"

section \<open>DEEP mode: the dangerous-call detector\<close>

definition DANGEROUS_SINKS :: "string list" where
  "DANGEROUS_SINKS =
    [''eval'', ''setTimeout'', ''setInterval'', ''Function'', ''document.write'',
     ''document.writeln'', ''innerHTML'', ''outerHTML'', ''insertAdjacentHTML'',
     ''location.assign'', ''location.replace'']"

text \<open>A finding is the tuple \<^verbatim>\<open>(node type, name, line)\<close> the detector appends.\<close>

type_synonym finding = "string \<times> string \<times> pyval"

text \<open>
  The state of one run of the detector: the list \<^verbatim>\<open>findings\<close> of the source, and
  \<^verbatim>\<open>visited\<close>, which the source does not have. It is instrumentation: every object on which
  the body of \<^verbatim>\<open>visit_node\<close> runs past its guard is logged there, in the order of the calls.
\<close>

record vstate =
  findings :: "finding list"
  visited :: "pyval list"

text \<open>\<^verbatim>\<open>getattr(node.loc.start, 'line', 0) if hasattr(node, 'loc') else 0\<close>\<close>

definition node_line :: "pyval \<Rightarrow> error + pyval" where
  "node_line node =
    (if hasattr node ''loc'' then
       (case attr node ''loc'' of
          Inl e \<Rightarrow> Inl e
        | Inr loc \<Rightarrow>
            (case attr loc ''start'' of
               Inl e \<Rightarrow> Inl e
             | Inr start \<Rightarrow> Inr (getattr start ''line'' (PInt 0))))
     else Inr (PInt 0))"

text \<open>
  The test \<^verbatim>\<open>callee in DANGEROUS_SINKS\<close>: the catalog holds strings only, so a value that is
  not a string is not in it.
\<close>

fun in_catalog :: "pyval \<Rightarrow> string list \<Rightarrow> string option" where
  "in_catalog (PStr s) cat = (if s \<in> set cat then Some s else None)"
| "in_catalog _ cat = None"

text \<open>
  The first \<^verbatim>\<open>if\<close> of \<^verbatim>\<open>visit_node\<close>. Nothing catches an exception here: a flagged call whose
  \<^verbatim>\<open>loc\<close> is not an object (a tree parsed without locations) ends the whole run.
\<close>

definition check_call :: "pyval \<Rightarrow> vstate \<Rightarrow> error + vstate" where
  "check_call node st =
    (if attr node ''type'' = Inr (PStr ''CallExpression'') then
       (case attr node ''callee'' of
          Inl e \<Rightarrow> Inl e
        | Inr c \<Rightarrow>
            (case in_catalog (getattr c ''name'' PNone) DANGEROUS_SINKS of
               None \<Rightarrow> Inr st
             | Some callee \<Rightarrow>
                 (case node_line node of
                    Inl e \<Rightarrow> Inl e
                  | Inr line \<Rightarrow>
                      Inr (st\<lparr>findings := findings st @ [(''CallExpression'', callee, line)]\<rparr>))))
     else Inr st)"

text \<open>\<^verbatim>\<open>node.left.property.name\<close>, inside the \<^verbatim>\<open>try\<close>.\<close>

definition assign_prop :: "pyval \<Rightarrow> error + pyval" where
  "assign_prop node =
    (case attr node ''left'' of
       Inl e \<Rightarrow> Inl e
     | Inr l \<Rightarrow>
         (case attr l ''property'' of
            Inl e \<Rightarrow> Inl e
          | Inr p \<Rightarrow> attr p ''name''))"

text \<open>
  The second \<^verbatim>\<open>if\<close>. Its body is a \<^verbatim>\<open>try\<close> with a bare \<^verbatim>\<open>except: pass\<close>, so every exception
  leaves the findings as they were.
\<close>

definition check_assign :: "pyval \<Rightarrow> vstate \<Rightarrow> vstate" where
  "check_assign node st =
    (if attr node ''type'' = Inr (PStr ''AssignmentExpression'') then
       (case assign_prop node of
          Inl e \<Rightarrow> st
        | Inr p \<Rightarrow>
            (case in_catalog p [''innerHTML'', ''outerHTML''] of
               None \<Rightarrow> st
             | Some prop \<Rightarrow>
                 (case node_line node of
                    Inl e \<Rightarrow> st
                  | Inr line \<Rightarrow>
                      st\<lparr>findings := findings st @ [(''AssignmentExpression'', prop, line)]\<rparr>)))
     else st)"

text \<open>The two checks of one node, in the order of the source.\<close>

definition check_node :: "pyval \<Rightarrow> vstate \<Rightarrow> error + vstate" where
  "check_node node st =
    (case check_call node st of
       Inl e \<Rightarrow> Inl e
     | Inr st' \<Rightarrow> Inr (check_assign node st'))"

text \<open>
  \<^verbatim>\<open>visit_node\<close> and its loop over \<^verbatim>\<open>node.__dict__.items()\<close>: \<^verbatim>\<open>visit_fields\<close> is the outer
  \<^verbatim>\<open>for\<close>, \<^verbatim>\<open>visit_value\<close> its body (a list is walked item by item, any other value is
  visited when it has a \<^verbatim>\<open>type\<close>), \<^verbatim>\<open>visit_items\<close> the inner \<^verbatim>\<open>for\<close>. An exception leaves
  every loop at once.

  The recursion is as deep as the tree, one call of \<^verbatim>\<open>visit_node\<close> inside the other, and the
  interpreter bounds the depth of calls: the first argument is the number of nested calls of
  \<^verbatim>\<open>visit_node\<close> that are still allowed. A call made when none is left raises
  \<^verbatim>\<open>RecursionError\<close>, whatever its argument, and nothing catches it. The loops run inside the
  call of their node, so they pass on what is left for the calls they make.
\<close>

fun visit_node :: "nat \<Rightarrow> pyval \<Rightarrow> vstate \<Rightarrow> error + vstate"
  and visit_fields :: "nat \<Rightarrow> (string \<times> pyval) list \<Rightarrow> vstate \<Rightarrow> error + vstate"
  and visit_value :: "nat \<Rightarrow> pyval \<Rightarrow> vstate \<Rightarrow> error + vstate"
  and visit_items :: "nat \<Rightarrow> pyval list \<Rightarrow> vstate \<Rightarrow> error + vstate"
where
  "visit_node 0 node st = Inl RecursionError"
| "visit_node (Suc d) (PObj kvs) st =
    (if \<not> hasattr (PObj kvs) ''type'' then Inr st
     else
       (case check_node (PObj kvs) (st\<lparr>visited := visited st @ [PObj kvs]\<rparr>) of
          Inl e \<Rightarrow> Inl e
        | Inr st' \<Rightarrow> visit_fields d kvs st'))"
| "visit_node (Suc d) node st = Inr st"
| "visit_fields d [] st = Inr st"
| "visit_fields d ((k, v) # kvs) st =
    (case visit_value d v st of
       Inl e \<Rightarrow> Inl e
     | Inr st' \<Rightarrow> visit_fields d kvs st')"
| "visit_value d (PList xs) st = visit_items d xs st"
| "visit_value d v st = (if hasattr v ''type'' then visit_node d v st else Inr st)"
| "visit_items d [] st = Inr st"
| "visit_items d (x # xs) st =
    (case visit_node d x st of
       Inl e \<Rightarrow> Inl e
     | Inr st' \<Rightarrow> visit_items d xs st')"

text \<open>
  The detector, run where \<^verbatim>\<open>limit\<close> nested calls of \<^verbatim>\<open>visit_node\<close> are allowed. The
  interpreter counts all calls on its stack, those below the detector and those made during
  one visit included; \<^verbatim>\<open>limit\<close> is what this leaves for the nesting of \<^verbatim>\<open>visit_node\<close>, less than
  the thousand of \<^verbatim>\<open>sys.getrecursionlimit()\<close>.
\<close>

definition run_visit :: "nat \<Rightarrow> pyval \<Rightarrow> error + vstate" where
  "run_visit limit tree = visit_node limit tree \<lparr>findings = [], visited = []\<rparr>"

definition ast_find_dangerous_calls :: "nat \<Rightarrow> pyval \<Rightarrow> error + finding list" where
  "ast_find_dangerous_calls limit tree =
    (case run_visit limit tree of
       Inl e \<Rightarrow> Inl e
     | Inr st \<Rightarrow> Inr (findings st))"

section \<open>Files and their text\<close>

text \<open>
  A file holds bytes; a text is a sequence of code points. \<^verbatim>\<open>Path(fp).read_text(errors="ignore")\<close>
  decodes the bytes with the default encoding of the process and then turns every line end
  into a line feed. The encoding is a parameter, given by what the scanner uses of it:
  \<^item> its decoder, which reads the next chunk of the bytes: the code points it stands for
    and the number of bytes used, or the number of bytes that are malformed;
  \<^item> the code points it can encode, for the files the scanner writes.
  On a malformed chunk the error handler decides: \<^verbatim>\<open>strict\<close> raises \<^verbatim>\<open>UnicodeDecodeError\<close>,
  \<^verbatim>\<open>ignore\<close> drops the chunk and goes on behind it.
\<close>

type_synonym byte = char
type_synonym unicode = "nat list"

datatype chunk = Decoded unicode nat | Malformed nat

record encoding =
  decoder :: "byte list \<Rightarrow> chunk"
  encodes :: "nat \<Rightarrow> bool"

datatype handler = Strict | Ignore

text \<open>A chunk has at least one byte; \<^verbatim>\<open>chunk_length\<close> says so of any decoder.\<close>

fun chunk_length :: "chunk \<Rightarrow> nat" where
  "chunk_length (Decoded cs n) = max 1 n"
| "chunk_length (Malformed n) = max 1 n"

function decode :: "handler \<Rightarrow> (byte list \<Rightarrow> chunk) \<Rightarrow> byte list \<Rightarrow> error + unicode" where
  "decode h dec [] = Inr []"
| "decode h dec (b # bs) =
    (case dec (b # bs) of
       Decoded cs n \<Rightarrow>
         (case decode h dec (drop (chunk_length (dec (b # bs))) (b # bs)) of
            Inl e \<Rightarrow> Inl e
          | Inr t \<Rightarrow> Inr (cs @ t))
     | Malformed n \<Rightarrow>
         (case h of
            Strict \<Rightarrow> Inl UnicodeDecodeError
          | Ignore \<Rightarrow> decode h dec (drop (chunk_length (dec (b # bs))) (b # bs))))"
  by pat_completeness auto
termination
proof (relation "measure (\<lambda>(h, dec, bs). length bs)")
  show "wf (measure (\<lambda>(h, dec, bs). length bs))"
    by simp
next
  fix h :: handler and dec :: "byte list \<Rightarrow> chunk" and b :: byte and bs :: "byte list"
  have "0 < chunk_length (dec (b # bs))"
    by (cases "dec (b # bs)") simp_all
  then show "((h, dec, drop (chunk_length (dec (b # bs))) (b # bs)), h, dec, b # bs)
      \<in> measure (\<lambda>(h, dec, bs). length bs)"
    by (simp add: diff_less)
next
  fix h :: handler and dec :: "byte list \<Rightarrow> chunk" and b :: byte and bs :: "byte list"
  have "0 < chunk_length (dec (b # bs))"
    by (cases "dec (b # bs)") simp_all
  then show "((h, dec, drop (chunk_length (dec (b # bs))) (b # bs)), h, dec, b # bs)
      \<in> measure (\<lambda>(h, dec, bs). length bs)"
    by (simp add: diff_less)
qed

text \<open>Universal newlines: a carriage return, alone or before a line feed, becomes a line feed.\<close>

fun universal_newlines :: "unicode \<Rightarrow> unicode" where
  "universal_newlines [] = []"
| "universal_newlines [c] = [if c = 13 then 10 else c]"
| "universal_newlines (c # d # cs) =
    (if c = 13 then
       (if d = 10 then 10 # universal_newlines cs else 10 # universal_newlines (d # cs))
     else c # universal_newlines (d # cs))"

text \<open>
  \<^verbatim>\<open>read_text\<close> of a file: nothing stands for a file that cannot be opened or read, and the
  handler is the \<^verbatim>\<open>errors\<close> argument.
\<close>

definition read_text :: "encoding \<Rightarrow> handler \<Rightarrow> byte list option \<Rightarrow> error + unicode" where
  "read_text enc h content =
    (case content of
       None \<Rightarrow> Inl OSError
     | Some bs \<Rightarrow>
         (case decode h (decoder enc) bs of
            Inl e \<Rightarrow> Inl e
          | Inr t \<Rightarrow> Inr (universal_newlines t)))"

text \<open>The text of a string of ASCII characters.\<close>

definition str :: "string \<Rightarrow> unicode" where
  "str s = map of_char s"

section \<open>DEEP mode: the batch loop\<close>

text \<open>
  What a run does that can be seen from outside: the console messages and the files written.
  A report of the DOM mode is given by its lines.
\<close>

datatype dom_line =
    SourcesHeading
  | SourceLine string "unicode list"
  | SinksHeading
  | SinkLine string "unicode list"
  | PossibleDomXss

datatype artifact =
    AstFindings "finding list"
  | DomReport "dom_line list"

datatype event =
    Info string
  | Success string
  | Warn string string
  | Error string
  | Wrote string artifact

definition basename :: "string \<Rightarrow> string" where
  "basename fp = rev (takeWhile (\<lambda>c. c \<noteq> CHR ''/'') (rev fp))"

definition ast_out :: "string \<Rightarrow> string" where
  "ast_out fp = ''results/analysis/ast/'' @ basename fp @ ''.ast.txt''"

definition dom_out :: "string \<Rightarrow> string" where
  "dom_out fp = ''results/analysis/dom/'' @ basename fp @ ''.domxss.txt''"

text \<open>
  A run ends with the events it produced and, when an exception escaped, that exception.
  Printing to the console and creating a result file are taken to succeed; what is written
  into a file must be encoded, which can fail.
\<close>

type_synonym outcome = "event list \<times> error option"

definition emit :: "event list \<Rightarrow> outcome \<Rightarrow> outcome" where
  "emit evs r = (evs @ fst r, snd r)"

text \<open>
  The \<^verbatim>\<open>for fp in js_files\<close> loop of \<^verbatim>\<open>run_deep_mode\<close>. A file is its path and its bytes
  (nothing when it cannot be read: the loop does not catch the \<^verbatim>\<open>OSError\<close>). The parser
  \<^verbatim>\<open>esprima.parseScript\<close> is outside the repository and is a parameter: it returns a tree, or
  the message of the exception it raised. The lines written for the findings are ASCII.
\<close>

fun deep_files ::
  "encoding \<Rightarrow> nat \<Rightarrow> (unicode \<Rightarrow> string + pyval) \<Rightarrow> (string \<times> byte list option) list \<Rightarrow> outcome"
where
  "deep_files enc limit parse [] = ([], None)"
| "deep_files enc limit parse ((fp, content) # rest) =
    (case read_text enc Ignore content of
       Inl e \<Rightarrow> ([], Some e)
     | Inr code \<Rightarrow>
         (case parse code of
            Inl msg \<Rightarrow> emit [Warn fp msg] (deep_files enc limit parse rest)
          | Inr tree \<Rightarrow>
              (case ast_find_dangerous_calls limit tree of
                 Inl e \<Rightarrow> ([], Some e)
               | Inr fs \<Rightarrow>
                   emit (if fs \<noteq> []
                         then [Wrote (ast_out fp) (AstFindings fs), Success (ast_out fp)]
                         else [])
                     (deep_files enc limit parse rest))))"

text \<open>
  \<^verbatim>\<open>run_deep_mode\<close>: \<^verbatim>\<open>esprima\<close> stands for \<^verbatim>\<open>ESPRIMA_AVAILABLE\<close>, \<^verbatim>\<open>jsdir\<close> for \<^verbatim>\<open>args.jsdir\<close>,
  and \<^verbatim>\<open>files\<close> for what \<^verbatim>\<open>collect_js_files\<close> finds under a directory. The test
  \<^verbatim>\<open>not args.jsdir\<close> holds when the option is missing and when it is the empty string.
\<close>

definition falsy :: "string option \<Rightarrow> bool" where
  "falsy a = (case a of None \<Rightarrow> True | Some s \<Rightarrow> s = [])"

definition run_deep_mode ::
  "bool \<Rightarrow> encoding \<Rightarrow> nat \<Rightarrow> (unicode \<Rightarrow> string + pyval) \<Rightarrow>
   (string \<Rightarrow> (string \<times> byte list option) list) \<Rightarrow> string option \<Rightarrow> outcome" where
  "run_deep_mode esprima enc limit parse files jsdir =
    emit [Info ''Running DEEP MODE (AST static analysis)...'']
      (if \<not> esprima then ([Error ''esprima not installed. Cannot run DEEP mode.''], None)
       else if falsy jsdir then ([Error ''--jsdir required for DEEP mode''], None)
       else
         (case deep_files enc limit parse (files (the jsdir)) of
            (evs, Some e) \<Rightarrow> (evs, Some e)
          | (evs, None) \<Rightarrow> (evs @ [Success ''DEEP MODE completed.''], None)))"

section \<open>DOM mode: sources and sinks in the raw text\<close>

text \<open>
  The catalogs are regular expressions. All of them are plain text in which a dot is escaped,
  so the fragment modelled is: a character that is no operator of \<^verbatim>\<open>re\<close> stands for itself, a
  backslash before a character that is neither letter nor digit makes that character
  literal. \<^verbatim>\<open>re_literal\<close> gives the text such a pattern denotes. It gives nothing for a
  pattern outside the fragment: one that \<^verbatim>\<open>re\<close> rejects (a backslash at the end) or one that
  uses an operator, which is not modelled.
\<close>

definition backslash :: char where
  "backslash = CHR 0x5C"

definition re_special :: "char \<Rightarrow> bool" where
  "re_special c = (c \<in> set ''.^$*+?{}[]|()'')"

definition alnum :: "char \<Rightarrow> bool" where
  "alnum c =
    (let n = (of_char c :: nat)
     in (97 \<le> n \<and> n \<le> 122) \<or> (65 \<le> n \<and> n \<le> 90) \<or> (48 \<le> n \<and> n \<le> 57))"

fun re_literal :: "string \<Rightarrow> string option" where
  "re_literal [] = Some []"
| "re_literal [c] = (if c = backslash \<or> re_special c then None else Some [c])"
| "re_literal (c # d # cs) =
    (if c = backslash then
       (if alnum d then None else map_option ((#) d) (re_literal cs))
     else if re_special c then None
     else map_option ((#) c) (re_literal (d # cs)))"

text \<open>
  All matches of a literal in a text, left to right and not overlapping: after a match the
  scan goes on behind it. The empty literal matches at every position, the end included.
\<close>

function findall_lit :: "unicode \<Rightarrow> unicode \<Rightarrow> unicode list" where
  "findall_lit l [] = (if l = [] then [[]] else [])"
| "findall_lit l (c # cs) =
    (if l = [] then [] # findall_lit l cs
     else if prefix l (c # cs) then l # findall_lit l (drop (length l) (c # cs))
     else findall_lit l cs)"
  by pat_completeness auto
termination
  by (relation "measure (\<lambda>(l, s). length s)") auto

text \<open>\<^verbatim>\<open>re.findall(s, js)\<close> for a pattern of the fragment.\<close>

definition re_findall :: "string \<Rightarrow> unicode \<Rightarrow> error + unicode list" where
  "re_findall s js =
    (case re_literal s of
       None \<Rightarrow> Inl ReError
     | Some l \<Rightarrow> Inr (findall_lit (str l) js))"

definition DOM_SOURCES :: "string list" where
  "DOM_SOURCES =
    [''location'' @ backslash # ''.hash'',
     ''location'' @ backslash # ''.search'',
     ''document'' @ backslash # ''.URL'',
     ''document'' @ backslash # ''.documentURI'',
     ''document'' @ backslash # ''.location'',
     ''window'' @ backslash # ''.name'',
     ''localStorage'' @ backslash # ''.getItem'',
     ''sessionStorage'' @ backslash # ''.getItem'']"

definition DOM_SINKS :: "string list" where
  "DOM_SINKS =
    [''innerHTML'',
     ''outerHTML'',
     ''document'' @ backslash # ''.write'',
     ''insertAdjacentHTML'',
     ''eval'',
     ''Function'']"

text \<open>
  The loop shared by \<^verbatim>\<open>find_sources\<close> and \<^verbatim>\<open>find_sinks\<close>: a pattern is kept, with its matches,
  when it has at least one.
\<close>

fun find_patterns :: "string list \<Rightarrow> unicode \<Rightarrow> error + (string \<times> unicode list) list" where
  "find_patterns [] js = Inr []"
| "find_patterns (s # ss) js =
    (case re_findall s js of
       Inl e \<Rightarrow> Inl e
     | Inr res \<Rightarrow>
         (case find_patterns ss js of
            Inl e \<Rightarrow> Inl e
          | Inr matches \<Rightarrow> Inr ((if res \<noteq> [] then [(s, res)] else []) @ matches)))"

definition find_sources :: "unicode \<Rightarrow> error + (string \<times> unicode list) list" where
  "find_sources js = find_patterns DOM_SOURCES js"

definition find_sinks :: "unicode \<Rightarrow> error + (string \<times> unicode list) list" where
  "find_sinks js = find_patterns DOM_SINKS js"

text \<open>
  What \<^verbatim>\<open>run_dom_mode\<close> computes for the text of one file: the two match lists and whether the
  line \<^verbatim>\<open>!!! POSSIBLE DOM XSS !!!\<close> is due, which is \<^verbatim>\<open>sources and sinks\<close>.
\<close>

record verdict =
  sourcesFound :: "(string \<times> unicode list) list"
  sinksFound :: "(string \<times> unicode list) list"
  possibleXSS :: bool

definition correlate :: "unicode \<Rightarrow> error + verdict" where
  "correlate js =
    (case find_sources js of
       Inl e \<Rightarrow> Inl e
     | Inr sources \<Rightarrow>
         (case find_sinks js of
            Inl e \<Rightarrow> Inl e
          | Inr sinks \<Rightarrow>
              Inr \<lparr>sourcesFound = sources, sinksFound = sinks,
                   possibleXSS = (sources \<noteq> [] \<and> sinks \<noteq> [])\<rparr>))"

text \<open>
  Writing the report. The file is opened with the default encoding and no error handler.
  The headings and the last line are ASCII; every line for a pattern holds the arrow
  U+2192, so writing it raises \<^verbatim>\<open>UnicodeEncodeError\<close> when the encoding has no such character.
  The result is the lines written up to then, and the exception if there was one.
\<close>

definition ARROW :: nat where
  "ARROW = 0x2192"

fun write_matches ::
  "encoding \<Rightarrow> (string \<Rightarrow> unicode list \<Rightarrow> dom_line) \<Rightarrow> (string \<times> unicode list) list \<Rightarrow>
   dom_line list \<times> error option" where
  "write_matches enc mk [] = ([], None)"
| "write_matches enc mk ((p, m) # rest) =
    (if encodes enc ARROW
     then (mk p m # fst (write_matches enc mk rest), snd (write_matches enc mk rest))
     else ([], Some UnicodeEncodeError))"

definition write_report :: "encoding \<Rightarrow> verdict \<Rightarrow> dom_line list \<times> error option" where
  "write_report enc v =
    (case write_matches enc SourceLine (sourcesFound v) of
       (ls, Some e) \<Rightarrow> (SourcesHeading # ls, Some e)
     | (ls, None) \<Rightarrow>
         (case write_matches enc SinkLine (sinksFound v) of
            (ks, Some e) \<Rightarrow> (SourcesHeading # ls @ SinksHeading # ks, Some e)
          | (ks, None) \<Rightarrow>
              (SourcesHeading # ls @ SinksHeading # ks @
                 (if possibleXSS v then [PossibleDomXss] else []),
               None)))"

text \<open>The \<^verbatim>\<open>for fp in js_files\<close> loop of \<^verbatim>\<open>run_dom_mode\<close>.\<close>

fun dom_files :: "encoding \<Rightarrow> (string \<times> byte list option) list \<Rightarrow> outcome" where
  "dom_files enc [] = ([], None)"
| "dom_files enc ((fp, content) # rest) =
    (case read_text enc Ignore content of
       Inl e \<Rightarrow> ([], Some e)
     | Inr js \<Rightarrow>
         (case correlate js of
            Inl e \<Rightarrow> ([], Some e)
          | Inr v \<Rightarrow>
              (if sourcesFound v \<noteq> [] \<or> sinksFound v \<noteq> [] then
                 (case write_report enc v of
                    (ls, Some e) \<Rightarrow> ([Wrote (dom_out fp) (DomReport ls)], Some e)
                  | (ls, None) \<Rightarrow>
                      emit [Wrote (dom_out fp) (DomReport ls), Success (dom_out fp)]
                        (dom_files enc rest))
               else dom_files enc rest)))"

definition run_dom_mode ::
  "encoding \<Rightarrow> (string \<Rightarrow> (string \<times> byte list option) list) \<Rightarrow> string option \<Rightarrow> outcome"
where
  "run_dom_mode enc files jsdir =
    emit [Info ''Running DOM MODE (DOM-XSS detection)...'']
      (if falsy jsdir then ([Error ''--jsdir required for DOM mode''], None)
       else
         (case dom_files enc (files (the jsdir)) of
            (evs, Some e) \<Rightarrow> (evs, Some e)
          | (evs, None) \<Rightarrow> (evs @ [Success ''DOM MODE completed.''], None)))"

section \<open>Positions in a tree\<close>

text \<open>
  What the traversal takes for a node is a value that passes its guard \<^verbatim>\<open>hasattr(node, 'type')\<close>:
  any object, a syntax node as well as the location of a node or a position in it. A child
  of a node sits in one of its fields, either as the value of the field or as an item of the
  list the field holds. A step \<^verbatim>\<open>(i, j)\<close> names the field by its index and the item by its
  index in the list (\<^verbatim>\<open>0\<close> for a field that holds the node itself); a path is the list of
  steps down from the root. This is how the nodes of a tree are counted here; the traversal
  is not used.
\<close>

type_synonym step = "nat \<times> nat"
type_synonym path = "step list"

definition is_node :: "pyval \<Rightarrow> bool" where
  "is_node v = hasattr v ''type''"

fun field_child :: "pyval \<Rightarrow> nat \<Rightarrow> pyval option" where
  "field_child (PList xs) j = (if j < length xs \<and> is_node (xs ! j) then Some (xs ! j) else None)"
| "field_child v j = (if j = 0 \<and> is_node v then Some v else None)"

fun child :: "pyval \<Rightarrow> step \<Rightarrow> pyval option" where
  "child (PObj kvs) (i, j) = (if i < length kvs then field_child (snd (kvs ! i)) j else None)"
| "child _ s = None"

fun node_at :: "pyval \<Rightarrow> path \<Rightarrow> pyval option" where
  "node_at t [] = (if is_node t then Some t else None)"
| "node_at t (s # p) =
    (if is_node t then (case child t s of None \<Rightarrow> None | Some c \<Rightarrow> node_at c p) else None)"


text \<open>
  What the detector needs of a node to run without \<^verbatim>\<open>AttributeError\<close>: a call expression has
  a location object, as every node of a tree parsed with \<^verbatim>\<open>loc=True\<close> has.
\<close>

definition well_formed_node :: "pyval \<Rightarrow> bool" where
  "well_formed_node n =
    (attr n ''type'' = Inr (PStr ''CallExpression'') \<longrightarrow>
       (case attr n ''loc'' of Inr (PObj kvs) \<Rightarrow> True | _ \<Rightarrow> False))"

definition well_formed :: "pyval \<Rightarrow> bool" where
  "well_formed t = (\<forall>p n. node_at t p = Some n \<longrightarrow> well_formed_node n)"

text \<open>
  A tree is within a limit when every node lies fewer than \<^verbatim>\<open>limit - 1\<close> steps below the
  root: the call on the node and the calls made from it, those on list items that are no
  objects included, are then all allowed.
\<close>

definition within_limit :: "nat \<Rightarrow> pyval \<Rightarrow> bool" where
  "within_limit limit t =
    (0 < limit \<and> (\<forall>p n. node_at t p = Some n \<longrightarrow> Suc (length p) < limit))"

text \<open>The findings one node contributes, and the line the detector reads off a node.\<close>

definition node_findings :: "pyval \<Rightarrow> finding list" where
  "node_findings n =
    (case check_node n \<lparr>findings = [], visited = []\<rparr> of
       Inl e \<Rightarrow> []
     | Inr st \<Rightarrow> findings st)"





text \<open>
  The nodes of a tree with their paths, listed along the recursion of \<^verbatim>\<open>visit_node\<close>. The
  proofs go through this listing.
\<close>

fun nodes_of :: "pyval \<Rightarrow> (path \<times> pyval) list"
  and nodes_fields :: "nat \<Rightarrow> (string \<times> pyval) list \<Rightarrow> (path \<times> pyval) list"
  and nodes_value :: "nat \<Rightarrow> pyval \<Rightarrow> (path \<times> pyval) list"
  and nodes_items :: "nat \<Rightarrow> nat \<Rightarrow> pyval list \<Rightarrow> (path \<times> pyval) list"
where
  "nodes_of (PObj kvs) =
    (if \<not> hasattr (PObj kvs) ''type'' then [] else ([], PObj kvs) # nodes_fields 0 kvs)"
| "nodes_of _ = []"
| "nodes_fields i [] = []"
| "nodes_fields i ((k, v) # kvs) = nodes_value i v @ nodes_fields (Suc i) kvs"
| "nodes_value i (PList xs) = nodes_items i 0 xs"
| "nodes_value i v =
    (if hasattr v ''type'' then map (\<lambda>(p, n). ((i, 0) # p, n)) (nodes_of v) else [])"
| "nodes_items i j [] = []"
| "nodes_items i j (x # xs) =
    map (\<lambda>(p, n). ((i, j) # p, n)) (nodes_of x) @ nodes_items i (Suc j) xs"

text \<open>The state after the nodes of a listing have been visited, one after the other.\<close>

definition extend :: "vstate \<Rightarrow> (path \<times> pyval) list \<Rightarrow> vstate" where
  "extend st ns =
    \<lparr>findings = findings st @ concat (map (\<lambda>(p, n). node_findings n) ns),
     visited = visited st @ map snd ns\<rparr>"

text \<open>
  A listing is admitted at a depth when its nodes are well formed and their paths are
  shorter than the depth.
\<close>

definition ok :: "nat \<Rightarrow> (path \<times> pyval) list \<Rightarrow> bool" where
  "ok d ns = (\<forall>(p, m) \<in> set ns. well_formed_node m \<and> length p < d)"

section \<open>The trees of the examples\<close>

text \<open>
  The parser is not part of the repository. The trees below are written out in the ESTree
  format that \<^verbatim>\<open>esprima.parseScript(code, loc=True)\<close> produces: every node is an object with
  its \<^verbatim>\<open>type\<close>, then its fields, then \<^verbatim>\<open>loc\<close>, a location object whose \<^verbatim>\<open>start\<close> and \<^verbatim>\<open>end\<close> are
  position objects with a line (from 1) and a column (from 0). The offset of a position and
  the source of a location are \<^verbatim>\<open>None\<close>.
\<close>

definition position :: "int \<Rightarrow> int \<Rightarrow> pyval" where
  "position l c = PObj [(''line'', PInt l), (''column'', PInt c), (''offset'', PNone)]"

definition source_location :: "int \<Rightarrow> int \<Rightarrow> int \<Rightarrow> int \<Rightarrow> pyval" where
  "source_location l1 c1 l2 c2 =
    PObj [(''start'', position l1 c1), (''end'', position l2 c2), (''source'', PNone)]"

definition Identifier :: "string \<Rightarrow> pyval \<Rightarrow> pyval" where
  "Identifier name loc =
    PObj [(''type'', PStr ''Identifier''), (''name'', PStr name), (''loc'', loc)]"

definition Literal :: "string \<Rightarrow> pyval \<Rightarrow> pyval" where
  "Literal v loc =
    PObj [(''type'', PStr ''Literal''), (''value'', PStr v),
          (''raw'', PStr (CHR 0x22 # v @ [CHR 0x22])), (''loc'', loc)]"

definition CallExpression :: "pyval \<Rightarrow> pyval list \<Rightarrow> pyval \<Rightarrow> pyval" where
  "CallExpression callee args loc =
    PObj [(''type'', PStr ''CallExpression''), (''callee'', callee),
          (''arguments'', PList args), (''loc'', loc)]"

definition MemberExpression :: "bool \<Rightarrow> pyval \<Rightarrow> pyval \<Rightarrow> pyval \<Rightarrow> pyval" where
  "MemberExpression computed obj prop loc =
    PObj [(''type'', PStr ''MemberExpression''), (''computed'', PBool computed),
          (''object'', obj), (''property'', prop), (''loc'', loc)]"

definition AssignmentExpression :: "string \<Rightarrow> pyval \<Rightarrow> pyval \<Rightarrow> pyval \<Rightarrow> pyval" where
  "AssignmentExpression operator left right loc =
    PObj [(''type'', PStr ''AssignmentExpression''), (''operator'', PStr operator),
          (''left'', left), (''right'', right), (''loc'', loc)]"

definition BinaryExpression :: "string \<Rightarrow> pyval \<Rightarrow> pyval \<Rightarrow> pyval \<Rightarrow> pyval" where
  "BinaryExpression operator left right loc =
    PObj [(''type'', PStr ''BinaryExpression''), (''operator'', PStr operator),
          (''left'', left), (''right'', right), (''loc'', loc)]"

definition ExpressionStatement :: "pyval \<Rightarrow> pyval \<Rightarrow> pyval" where
  "ExpressionStatement e loc =
    PObj [(''type'', PStr ''ExpressionStatement''), (''expression'', e), (''loc'', loc)]"

definition Program :: "pyval list \<Rightarrow> pyval \<Rightarrow> pyval" where
  "Program body loc =
    PObj [(''type'', PStr ''Program''), (''sourceType'', PStr ''script''),
          (''body'', PList body), (''loc'', loc)]"

text \<open>A program of one expression statement that starts in column 0 of line \<^verbatim>\<open>n\<close>.\<close>

definition script :: "int \<Rightarrow> int \<Rightarrow> (pyval \<Rightarrow> pyval) \<Rightarrow> pyval" where
  "script n w e =
    Program [ExpressionStatement (e (source_location n 0 n w)) (source_location n 0 n w)]
      (source_location n 0 n w)"

text \<open>\<^verbatim>\<open>eval("x")\<close>\<close>

definition tree_eval :: pyval where
  "tree_eval =
    script 1 9
      (CallExpression (Identifier ''eval'' (source_location 1 0 1 4))
         [Literal ''x'' (source_location 1 5 1 8)])"

text \<open>\<^verbatim>\<open>document.write("x")\<close>\<close>

definition tree_document_write :: pyval where
  "tree_document_write =
    script 1 19
      (CallExpression
         (MemberExpression False (Identifier ''document'' (source_location 1 0 1 8))
            (Identifier ''write'' (source_location 1 9 1 14)) (source_location 1 0 1 14))
         [Literal ''x'' (source_location 1 15 1 18)])"

text \<open>\<^verbatim>\<open>window["eval"]("x")\<close>\<close>

definition tree_window_eval :: pyval where
  "tree_window_eval =
    script 1 19
      (CallExpression
         (MemberExpression True (Identifier ''window'' (source_location 1 0 1 6))
            (Literal ''eval'' (source_location 1 7 1 13)) (source_location 1 0 1 14))
         [Literal ''x'' (source_location 1 15 1 18)])"

text \<open>\<^verbatim>\<open>el.innerHTML = "<img>"\<close> and \<^verbatim>\<open>el.textContent = "<img>"\<close>, on line \<^verbatim>\<open>n\<close>.\<close>

definition tree_assign :: "string \<Rightarrow> int \<Rightarrow> pyval" where
  "tree_assign pname n =
    script n (int (length pname) + 13)
      (AssignmentExpression ''=''
         (MemberExpression False (Identifier ''el'' (source_location n 0 n 2))
            (Identifier pname (source_location n 3 n (int (length pname) + 3)))
            (source_location n 0 n (int (length pname) + 3)))
         (Literal ''<img>''
            (source_location n (int (length pname) + 6) n (int (length pname) + 13))))"









text \<open>
  The ASCII encoding: a byte below 128 is its code point, any other byte is malformed, and
  only the code points below 128 can be encoded.
\<close>

definition ascii_decoder :: "byte list \<Rightarrow> chunk" where
  "ascii_decoder bs =
    (case bs of
       [] \<Rightarrow> Decoded [] 0
     | b # r \<Rightarrow> if (of_char b :: nat) < 128 then Decoded [of_char b] 1 else Malformed 1)"

definition ascii :: encoding where
  "ascii = \<lparr>decoder = ascii_decoder, encodes = (\<lambda>c. c < 128)\<rparr>"


text \<open>Whether a pattern of the catalogs occurs somewhere in a text.\<close>

definition re_search :: "string \<Rightarrow> unicode \<Rightarrow> bool" where
  "re_search s js = (case re_literal s of None \<Rightarrow> False | Some l \<Rightarrow> sublist (str l) js)"

section \<open>The traversal\<close>

subsection \<open>The traversal follows the listing of the nodes\<close>

lemma extend_Nil [simp]: "extend st [] = st"
  by (simp add: extend_def)

lemma extend_append [simp]: "extend st (xs @ ys) = extend (extend st xs) ys"
  by (simp add: extend_def)

lemma extend_shift [simp]: "extend st (map (\<lambda>(p, n). (s # p, n)) ns) = extend st ns"
  by (simp add: extend_def case_prod_unfold comp_def)

lemma ok_Nil [simp]: "ok d []"
  by (simp add: ok_def)

lemma ok_append [simp]: "ok d (xs @ ys) \<longleftrightarrow> ok d xs \<and> ok d ys"
  by (auto simp: ok_def)

lemma ok_shift [simp]: "ok d (map (\<lambda>(p, n). (s # p, n)) ns) \<longleftrightarrow> ok (d - 1) ns"
  by (force simp: ok_def)

lemma check_node_frame:
  "check_node n st =
    (case check_node n \<lparr>findings = [], visited = []\<rparr> of
       Inl e \<Rightarrow> Inl e
     | Inr s \<Rightarrow> Inr (st\<lparr>findings := findings st @ findings s\<rparr>))"
  by (simp add: check_node_def check_call_def check_assign_def split: sum.splits option.splits)

lemma check_node_well_formed:
  "well_formed_node n \<Longrightarrow> \<exists>s. check_node n \<lparr>findings = [], visited = []\<rparr> = Inr s"
  by (cases n)
    (auto simp: well_formed_node_def check_node_def check_call_def node_line_def
      split: sum.splits option.splits pyval.splits)

lemma check_node_extend:
  assumes "well_formed_node n"
  shows "check_node n (st\<lparr>visited := visited st @ [n]\<rparr>) = Inr (extend st [(p, n)])"
proof -
  obtain s where s: "check_node n \<lparr>findings = [], visited = []\<rparr> = Inr s"
    using check_node_well_formed[OF assms] by blast
  show ?thesis
    by (subst check_node_frame) (simp add: s extend_def node_findings_def)
qed

text \<open>
  In the statements below the first argument of a loop is what is left for the calls it
  makes, and the paths of a listing count from the node that runs the loop.
\<close>

lemma visit_extend:
  "0 < d \<and> ok (d - 1) (nodes_of n) \<longrightarrow> visit_node d n st = Inr (extend st (nodes_of n))"
  "\<forall>i. 0 < d \<and> ok d (nodes_fields i kvs) \<longrightarrow>
     visit_fields d kvs st = Inr (extend st (nodes_fields i kvs))"
  "\<forall>i. 0 < d \<and> ok d (nodes_value i v) \<longrightarrow>
     visit_value d v st = Inr (extend st (nodes_value i v))"
  "\<forall>i j. 0 < d \<and> ok d (nodes_items i j xs) \<longrightarrow>
     visit_items d xs st = Inr (extend st (nodes_items i j xs))"
proof (induction d n st and d kvs st and d v st and d xs st
    rule: visit_node_visit_fields_visit_value_visit_items.induct)
  case (2 d kvs st)
  show ?case
  proof
    assume a: "0 < Suc d \<and> ok (Suc d - 1) (nodes_of (PObj kvs))"
    then have w0: "well_formed_node (PObj kvs)" and d: "0 < d"
      and f: "ok d (nodes_fields 0 kvs)"
      by (simp_all add: ok_def)
    have c: "check_node (PObj kvs) (st\<lparr>visited := visited st @ [PObj kvs]\<rparr>) =
        Inr (extend st [([], PObj kvs)])"
      by (rule check_node_extend[OF w0])
    have e: "extend st (nodes_of (PObj kvs)) =
        extend (extend st [([], PObj kvs)]) (nodes_fields 0 kvs)"
      by (simp add: extend_def)
    have v: "visit_node (Suc d) (PObj kvs) st = visit_fields d kvs (extend st [([], PObj kvs)])"
      using c by simp
    from "2.IH"[OF _ c] d f
    have "visit_fields d kvs (extend st [([], PObj kvs)]) =
        Inr (extend (extend st [([], PObj kvs)]) (nodes_fields 0 kvs))"
      by simp
    with e v show "visit_node (Suc d) (PObj kvs) st = Inr (extend st (nodes_of (PObj kvs)))"
      by simp
  qed
next
  case (5 d k v kvs st)
  show ?case
  proof (intro allI impI)
    fix i
    assume a: "0 < d \<and> ok d (nodes_fields i ((k, v) # kvs))"
    then have b: "visit_value d v st = Inr (extend st (nodes_value i v))"
      using "5.IH"(1) by simp
    from a "5.IH"(2)[OF b]
    have "visit_fields d kvs (extend st (nodes_value i v)) =
        Inr (extend (extend st (nodes_value i v)) (nodes_fields (Suc i) kvs))"
      by simp
    with b show "visit_fields d ((k, v) # kvs) st = Inr (extend st (nodes_fields i ((k, v) # kvs)))"
      by simp
  qed
next
  case (9 d x xs st)
  show ?case
  proof (intro allI impI)
    fix i j
    assume a: "0 < d \<and> ok d (nodes_items i j (x # xs))"
    then have b: "visit_node d x st = Inr (extend st (nodes_of x))"
      using "9.IH"(1) by simp
    from a "9.IH"(2)[OF b]
    have "visit_items d xs (extend st (nodes_of x)) =
        Inr (extend (extend st (nodes_of x)) (nodes_items i (Suc j) xs))"
      by simp
    with b show "visit_items d (x # xs) st = Inr (extend st (nodes_items i j (x # xs)))"
      by simp
  qed
next
  fix d va st
  assume IH: "hasattr (PObj va) ''type'' \<Longrightarrow>
    0 < d \<and> ok (d - 1) (nodes_of (PObj va)) \<longrightarrow>
    visit_node d (PObj va) st = Inr (extend st (nodes_of (PObj va)))"
  show "\<forall>i. 0 < d \<and> ok d (nodes_value i (PObj va)) \<longrightarrow>
    visit_value d (PObj va) st = Inr (extend st (nodes_value i (PObj va)))"
    using IH by (simp del: nodes_of.simps visit_node.simps)
qed simp_all

subsection \<open>The listing holds every position once, in pre-order\<close>

lemma node_at_is_node: "node_at c r = Some m \<Longrightarrow> is_node c"
  by (cases r) (auto split: if_splits)

lemma node_at_not_node: "\<not> is_node t \<Longrightarrow> node_at t p = None"
  by (cases p) simp_all

lemma nodes_value_object:
  assumes IH: "hasattr (PObj va) ''type'' \<Longrightarrow>
    set (nodes_of (PObj va)) = {(p, m). node_at (PObj va) p = Some m}"
  shows "set (nodes_value i (PObj va)) =
    {((i, b) # r, m) | b r m. \<exists>c. field_child (PObj va) b = Some c \<and> node_at c r = Some m}"
proof (cases "hasattr (PObj va) ''type''")
  case True
  have "set (nodes_value i (PObj va)) = (\<lambda>(p, n). ((i, 0) # p, n)) ` set (nodes_of (PObj va))"
    using True by (simp del: nodes_of.simps)
  also have "\<dots> = {((i, 0) # r, m) | r m. node_at (PObj va) r = Some m}"
    unfolding IH[OF True] by auto
  also have "\<dots> =
      {((i, b) # r, m) | b r m. \<exists>c. field_child (PObj va) b = Some c \<and> node_at c r = Some m}"
    using True by (auto simp: is_node_def)
  finally show ?thesis .
next
  case False
  then show ?thesis by (auto simp: is_node_def)
qed

lemma nodes_sets:
  "set (nodes_of t) = {(p, m). node_at t p = Some m}"
  "set (nodes_fields i kvs) =
     {((i + k, b) # r, m) | k b r m.
        k < length kvs \<and> (\<exists>c. field_child (snd (kvs ! k)) b = Some c \<and> node_at c r = Some m)}"
  "set (nodes_value i v) =
     {((i, b) # r, m) | b r m. \<exists>c. field_child v b = Some c \<and> node_at c r = Some m}"
  "set (nodes_items i j xs) =
     {((i, j + k) # r, m) | k r m. k < length xs \<and> node_at (xs ! k) r = Some m}"
proof (induction t and i kvs and i v and i j xs rule: nodes_of_nodes_fields_nodes_value_nodes_items.induct)
  case (1 kvs)
  show ?case
  proof (cases "hasattr (PObj kvs) ''type''")
    case False
    then have "node_at (PObj kvs) p = None" for p
      by (cases p) (simp_all add: is_node_def)
    with False show ?thesis by simp
  next
    case True
    have "(p, m) \<in> set (nodes_of (PObj kvs)) \<longleftrightarrow> node_at (PObj kvs) p = Some m" for p m
    proof (cases p)
      case Nil
      with True show ?thesis by (auto simp: "1.IH" is_node_def)
    next
      case (Cons s r)
      obtain a b where s: "s = (a, b)" by (cases s)
      show ?thesis
        using True by (auto simp: Cons s "1.IH" is_node_def split: option.splits)
    qed
    then show ?thesis by (auto simp del: nodes_of.simps node_at.simps)
  qed
next
  case (4 i k v kvs)
  show ?case (is "?L = ?R")
  proof (intro set_eqI iffI)
    fix x assume "x \<in> ?L"
    then consider "x \<in> set (nodes_value i v)" | "x \<in> set (nodes_fields (Suc i) kvs)" by auto
    then show "x \<in> ?R"
    proof cases
      case 1
      then obtain b r m c where "x = ((i, b) # r, m)" "field_child v b = Some c" "node_at c r = Some m"
        unfolding "4.IH" by blast
      then show ?thesis by (intro CollectI exI[of _ 0] exI[of _ b] exI[of _ r] exI[of _ m]) auto
    next
      case 2
      then obtain n b r m c where "x = ((Suc i + n, b) # r, m)" "n < length kvs"
        "field_child (snd (kvs ! n)) b = Some c" "node_at c r = Some m"
        unfolding "4.IH" by blast
      then show ?thesis by (intro CollectI exI[of _ "Suc n"] exI[of _ b] exI[of _ r] exI[of _ m]) auto
    qed
  next
    fix x assume "x \<in> ?R"
    then obtain n b r m c where x: "x = ((i + n, b) # r, m)" "n < length ((k, v) # kvs)"
        "field_child (snd (((k, v) # kvs) ! n)) b = Some c" "node_at c r = Some m"
      by blast
    show "x \<in> ?L"
    proof (cases n)
      case 0
      with x have "x \<in> set (nodes_value i v)" unfolding "4.IH" by auto
      then show ?thesis by simp
    next
      case (Suc n')
      with x have "x \<in> set (nodes_fields (Suc i) kvs)" unfolding "4.IH" by auto
      then show ?thesis by simp
    qed
  qed
next
  case (5 i xs)
  show ?case
    by (auto simp: "5.IH" dest: node_at_is_node split: if_splits)
next
  fix i va
  assume "hasattr (PObj va) ''type'' \<Longrightarrow>
    set (nodes_of (PObj va)) = {(p, m). node_at (PObj va) p = Some m}"
  then show "set (nodes_value i (PObj va)) =
    {((i, b) # r, m) | b r m. \<exists>c. field_child (PObj va) b = Some c \<and> node_at c r = Some m}"
    by (rule nodes_value_object)
next
  case (8 i j x xs)
  show ?case (is "?L = ?R")
  proof (intro set_eqI iffI)
    fix y assume "y \<in> ?L"
    moreover have "?L = (\<lambda>(p, n). ((i, j) # p, n)) ` set (nodes_of x) \<union> set (nodes_items i (Suc j) xs)"
      by simp
    ultimately consider "y \<in> (\<lambda>(p, n). ((i, j) # p, n)) ` set (nodes_of x)" | "y \<in> set (nodes_items i (Suc j) xs)"
      by blast
    then show "y \<in> ?R"
    proof cases
      case 1
      then obtain r m where "y = ((i, j) # r, m)" "node_at x r = Some m"
        unfolding "8.IH" by auto
      then show ?thesis by (intro CollectI exI[of _ 0] exI[of _ r] exI[of _ m]) auto
    next
      case 2
      then obtain n r m where "y = ((i, Suc j + n) # r, m)" "n < length xs" "node_at (xs ! n) r = Some m"
        unfolding "8.IH" by blast
      then show ?thesis by (intro CollectI exI[of _ "Suc n"] exI[of _ r] exI[of _ m]) auto
    qed
  next
    fix y assume "y \<in> ?R"
    then obtain n r m where y: "y = ((i, j + n) # r, m)" "n < length (x # xs)"
        "node_at ((x # xs) ! n) r = Some m"
      by blast
    show "y \<in> ?L"
    proof (cases n)
      case 0
      with y have "y \<in> (\<lambda>(p, n). ((i, j) # p, n)) ` set (nodes_of x)" unfolding "8.IH" by auto
      then show ?thesis by simp
    next
      case (Suc n')
      with y have "y \<in> set (nodes_items i (Suc j) xs)" unfolding "8.IH" by auto
      then show ?thesis by simp
    qed
  qed
qed (auto simp: is_node_def node_at_not_node)








lemma sorted_wrt_concat_single:
  assumes "sorted_wrt (\<lambda>x y. R (h x) (h y)) xs"
    and "\<forall>x \<in> set xs. length (g x) \<le> 1 \<and> (\<forall>f \<in> set (g x). k f = h x)"
  shows "sorted_wrt (\<lambda>f f'. R (k f) (k f')) (concat (map g xs))"
  using assms
proof (induction xs)
  case Nil
  then show ?case by simp
next
  case (Cons x xs)
  have "sorted_wrt (\<lambda>f f'. R (k f) (k f')) (g x)"
    using Cons.prems(2) by (cases "g x") auto
  moreover have "sorted_wrt (\<lambda>f f'. R (k f) (k f')) (concat (map g xs))"
    using Cons by simp
  moreover have "R (k f) (k f')" if "f \<in> set (g x)" "f' \<in> set (concat (map g xs))" for f f'
  proof -
    from that(2) obtain y where y: "y \<in> set xs" "f' \<in> set (g y)" by auto
    with Cons.prems(1) have "R (h x) (h y)" by simp
    with that(1) y Cons.prems(2) show ?thesis by simp
  qed
  ultimately show ?case by (simp add: sorted_wrt_append)
qed

subsection \<open>The run of the detector\<close>

lemma well_formed_listing:
  "well_formed t \<longleftrightarrow> (\<forall>(p, n) \<in> set (nodes_of t). well_formed_node n)"
  by (auto simp: well_formed_def nodes_sets(1))

lemma within_limit_listing:
  "within_limit d t \<longleftrightarrow> 0 < d \<and> (\<forall>(p, n) \<in> set (nodes_of t). Suc (length p) < d)"
  by (auto simp: within_limit_def nodes_sets(1))

lemma run_visit_listing:
  assumes "well_formed t" and "within_limit d t"
  shows "run_visit d t = Inr (extend \<lparr>findings = [], visited = []\<rparr> (nodes_of t))"
proof -
  from assms have "0 < d \<and> ok (d - 1) (nodes_of t)"
    by (auto simp: well_formed_listing within_limit_listing ok_def)
  with visit_extend(1)[of d t] show ?thesis
    by (simp add: run_visit_def)
qed

lemma find_listing:
  assumes "well_formed t" and "within_limit d t"
  shows "ast_find_dangerous_calls d t =
    Inr (concat (map (\<lambda>(p, n). node_findings n) (nodes_of t)))"
  by (simp add: ast_find_dangerous_calls_def run_visit_listing[OF assms] extend_def)

lemma flat_fits:
  assumes "\<forall>(p, n) \<in> set (nodes_of t). Suc (length p) < 10"
  shows "within_limit (10 + k) t"
  using assms by (fastforce simp: within_limit_listing)

subsection \<open>Deep trees\<close>





lemmas estree_defs =
  position_def source_location_def Identifier_def Literal_def CallExpression_def
  MemberExpression_def AssignmentExpression_def BinaryExpression_def ExpressionStatement_def
  Program_def script_def

lemmas check_defs =
  check_node_def check_call_def check_assign_def assign_prop_def getattr_def node_line_def

subsection \<open>Lines\<close>






subsection \<open>The example trees\<close>

lemma eval_tree:
  "well_formed tree_eval"
  "\<forall>(p, n) \<in> set (nodes_of tree_eval). Suc (length p) < 10"
  "concat (map (\<lambda>(p, n). node_findings n) (nodes_of tree_eval)) =
     [(''CallExpression'', ''eval'', PInt 1)]"
  unfolding well_formed_listing by code_simp+

lemma document_write_tree:
  "well_formed tree_document_write"
  "\<forall>(p, n) \<in> set (nodes_of tree_document_write). Suc (length p) < 10"
  "concat (map (\<lambda>(p, n). node_findings n) (nodes_of tree_document_write)) = []"
  unfolding well_formed_listing by code_simp+

lemma window_eval_tree:
  "well_formed tree_window_eval"
  "\<forall>(p, n) \<in> set (nodes_of tree_window_eval). Suc (length p) < 10"
  "concat (map (\<lambda>(p, n). node_findings n) (nodes_of tree_window_eval)) = []"
  unfolding well_formed_listing by code_simp+



lemma assign_tree:
  "well_formed (tree_assign ''innerHTML'' n)"
  "\<forall>(p, m) \<in> set (nodes_of (tree_assign ''innerHTML'' n)). Suc (length p) < 10"
  "concat (map (\<lambda>(p, m). node_findings m) (nodes_of (tree_assign ''innerHTML'' n))) =
     [(''AssignmentExpression'', ''innerHTML'', PInt n)]"
  "well_formed (tree_assign ''textContent'' n)"
  "\<forall>(p, m) \<in> set (nodes_of (tree_assign ''textContent'' n)). Suc (length p) < 10"
  "concat (map (\<lambda>(p, m). node_findings m) (nodes_of (tree_assign ''textContent'' n))) = []"
  unfolding well_formed_listing
  by (simp_all add: tree_assign_def estree_defs well_formed_node_def node_findings_def check_defs)

section \<open>The per-node checks and the examples\<close>

text \<open>
  Claim C6. For the source text \<^verbatim>\<open>eval("x")\<close> the detector returns exactly one finding, the call
  sink \<^verbatim>\<open>eval\<close> on line 1, wherever ten or more nested calls are allowed. In general a call
  whose callee is a plain identifier is flagged exactly when the identifier's name is in the
  call-sink catalog, with that name and the line on which the call starts.
\<close>

theorem eval_call_flagged:
  "(\<forall>k. ast_find_dangerous_calls (10 + k) tree_eval = Inr [(''CallExpression'', ''eval'', PInt 1)]) \<and>
   (\<forall>name args l c l' c' iloc st.
      check_node (CallExpression (Identifier name iloc) args (source_location l c l' c')) st =
        Inr (if name \<in> set DANGEROUS_SINKS
             then st\<lparr>findings := findings st @ [(''CallExpression'', name, PInt l)]\<rparr>
             else st))"
proof -
  have "ast_find_dangerous_calls (10 + k) tree_eval = Inr [(''CallExpression'', ''eval'', PInt 1)]"
    for k
    using find_listing[OF eval_tree(1) flat_fits[OF eval_tree(2)], of k]
    by (simp only: eval_tree(3))
  moreover have
    "check_node (CallExpression (Identifier name iloc) args (source_location l c l' c')) st =
       Inr (if name \<in> set DANGEROUS_SINKS
            then st\<lparr>findings := findings st @ [(''CallExpression'', name, PInt l)]\<rparr>
            else st)"
    for name args l c l' c' iloc st
    by (simp add: estree_defs check_defs)
  ultimately show ?thesis by blast
qed

text \<open>
  Claim C1. The claim asks for one finding named \<^verbatim>\<open>document.write\<close> on \<^verbatim>\<open>document.write("x")\<close>.
  The detector reads only the \<^verbatim>\<open>name\<close> of the callee, which a member expression does not
  have, and returns no finding.
\<close>

theorem document_write_call_not_flagged:
  "ast_find_dangerous_calls (10 + k) tree_document_write = Inr []"
  using find_listing[OF document_write_tree(1) flat_fits[OF document_write_tree(2)], of k]
  by (simp only: document_write_tree(3))

text \<open>
  Claim C7. A call whose callee carries no \<^verbatim>\<open>name\<close>, as every callee that is not a plain
  identifier, adds no finding; \<^verbatim>\<open>window["eval"]("x")\<close> yields none.
\<close>

theorem call_without_callee_name_not_flagged:
  "(\<forall>k. ast_find_dangerous_calls (10 + k) tree_window_eval = Inr []) \<and>
   (\<forall>callee args loc st. lookup_attr callee ''name'' = None \<longrightarrow>
      check_node (CallExpression callee args loc) st = Inr st)"
proof -
  have "ast_find_dangerous_calls (10 + k) tree_window_eval = Inr []" for k
    using find_listing[OF window_eval_tree(1) flat_fits[OF window_eval_tree(2)], of k]
    by (simp only: window_eval_tree(3))
  moreover have "check_node (CallExpression callee args loc) st = Inr st"
    if "lookup_attr callee ''name'' = None" for callee args loc st
    using that by (cases callee) (simp_all add: estree_defs check_defs)
  ultimately show ?thesis by blast
qed

theorem call_without_callee_name_not_flagged_witness:
  "lookup_attr (MemberExpression True (Identifier ''window'' PNone) (Literal ''eval'' PNone) PNone)
     ''name'' = None \<and>
   check_node
     (CallExpression
        (MemberExpression True (Identifier ''window'' PNone) (Literal ''eval'' PNone) PNone)
        [Literal ''x'' PNone] PNone)
     \<lparr>findings = [], visited = []\<rparr> = Inr \<lparr>findings = [], visited = []\<rparr>"
proof -
  have h: "lookup_attr
      (MemberExpression True (Identifier ''window'' PNone) (Literal ''eval'' PNone) PNone)
      ''name'' = None"
    by (simp add: estree_defs)
  from call_without_callee_name_not_flagged h show ?thesis
    by blast
qed

text \<open>
  Claim C5. An assignment whose left-hand side is a member access adds one finding with the
  property's name and the assignment's line when that name is \<^verbatim>\<open>innerHTML\<close> or \<^verbatim>\<open>outerHTML\<close>,
  and none otherwise, whatever the object expression and the right-hand side are. On line
  \<^verbatim>\<open>n\<close>, \<^verbatim>\<open>el.innerHTML = "<img>"\<close> yields that one finding and \<^verbatim>\<open>el.textContent = "<img>"\<close>
  yields none.
\<close>

theorem assignment_sink_by_property_name:
  "(\<forall>pname ob rhs oper ploc mloc l c l' c' st.
      check_node
        (AssignmentExpression oper (MemberExpression False ob (Identifier pname ploc) mloc) rhs
           (source_location l c l' c')) st =
        Inr (if pname \<in> {''innerHTML'', ''outerHTML''}
             then st\<lparr>findings := findings st @ [(''AssignmentExpression'', pname, PInt l)]\<rparr>
             else st)) \<and>
   (\<forall>n k. ast_find_dangerous_calls (10 + k) (tree_assign ''innerHTML'' n) =
      Inr [(''AssignmentExpression'', ''innerHTML'', PInt n)]) \<and>
   (\<forall>n k. ast_find_dangerous_calls (10 + k) (tree_assign ''textContent'' n) = Inr [])"
proof -
  have a: "check_node
      (AssignmentExpression oper (MemberExpression False ob (Identifier pname ploc) mloc) rhs
         (source_location l c l' c')) st =
      Inr (if pname \<in> {''innerHTML'', ''outerHTML''}
           then st\<lparr>findings := findings st @ [(''AssignmentExpression'', pname, PInt l)]\<rparr>
           else st)"
    for pname ob rhs oper ploc mloc l c l' c' st
    by (simp add: estree_defs check_defs)
  have b: "ast_find_dangerous_calls (10 + k) (tree_assign ''innerHTML'' n) =
      Inr [(''AssignmentExpression'', ''innerHTML'', PInt n)]" for n k
    using find_listing[OF assign_tree(1)[of n] flat_fits[OF assign_tree(2)[of n], of k]]
    by (simp only: assign_tree(3))
  have c: "ast_find_dangerous_calls (10 + k) (tree_assign ''textContent'' n) = Inr []" for n k
    using find_listing[OF assign_tree(4)[of n] flat_fits[OF assign_tree(5)[of n], of k]]
    by (simp only: assign_tree(6))
  from a b c show ?thesis by blast
qed

section \<open>Every node once\<close>




section \<open>The order of the findings\<close>




section \<open>The DOM correlator\<close>

text \<open>
  Claim C10. The patterns match inside longer identifiers: in a text whose only candidates
  are \<^verbatim>\<open>myFunction\<close> or \<^verbatim>\<open>evaluate\<close>, next to \<^verbatim>\<open>location.hash\<close>, the sink pattern \<^verbatim>\<open>Function\<close> or
  \<^verbatim>\<open>eval\<close> is found and the verdict is a possible DOM XSS.
\<close>

theorem dom_sink_matches_inside_identifier:
  "map_sum id (\<lambda>v. (sinksFound v, possibleXSS v))
     (correlate (str ''var y = myFunction(location.hash);'')) =
     Inr ([(''Function'', [str ''Function''])], True) \<and>
   map_sum id (\<lambda>v. (sinksFound v, possibleXSS v))
     (correlate (str ''evaluate(location.hash)'')) =
     Inr ([(''eval'', [str ''eval''])], True)"
  by code_simp

lemma findall_lit_nonempty: "l \<noteq> [] \<Longrightarrow> findall_lit l s \<noteq> [] \<longleftrightarrow> sublist l s"
proof (induction l s rule: findall_lit.induct)
  case (1 l)
  then show ?case by simp
next
  case (2 l c cs)
  then show ?case by (auto simp: sublist_Cons_right)
qed

lemma find_patterns_ok:
  "\<forall>s \<in> set ss. re_literal s \<noteq> None \<Longrightarrow> \<exists>ms. find_patterns ss js = Inr ms"
  by (induction ss) (auto simp: re_findall_def)

lemma find_patterns_nonempty:
  "find_patterns ss js = Inr ms \<Longrightarrow> \<forall>s \<in> set ss. re_literal s \<noteq> Some [] \<Longrightarrow>
   ms \<noteq> [] \<longleftrightarrow> (\<exists>s \<in> set ss. re_search s js)"
proof (induction ss arbitrary: ms)
  case Nil
  then show ?case by simp
next
  case (Cons s ss)
  then show ?case
    by (auto simp: re_findall_def re_search_def findall_lit_nonempty str_def
        split: option.splits sum.splits if_splits)
qed

lemma sources_literal: "\<forall>s \<in> set DOM_SOURCES. re_literal s \<noteq> None \<and> re_literal s \<noteq> Some []"
  by (simp add: DOM_SOURCES_def backslash_def re_special_def alnum_def)

lemma sinks_literal: "\<forall>s \<in> set DOM_SINKS. re_literal s \<noteq> None \<and> re_literal s \<noteq> Some []"
  by (simp add: DOM_SINKS_def backslash_def re_special_def alnum_def)

lemma correlate_total: "\<exists>v. correlate js = Inr v"
proof -
  obtain a where a: "find_sources js = Inr a"
    using find_patterns_ok[of DOM_SOURCES js] sources_literal by (auto simp: find_sources_def)
  obtain b where b: "find_sinks js = Inr b"
    using find_patterns_ok[of DOM_SINKS js] sinks_literal by (auto simp: find_sinks_def)
  show ?thesis by (simp add: correlate_def a b)
qed

lemma correlate_verdict:
  assumes "correlate js = Inr v"
  shows "possibleXSS v \<longleftrightarrow>
    (\<exists>s \<in> set DOM_SOURCES. re_search s js) \<and> (\<exists>s \<in> set DOM_SINKS. re_search s js)"
proof -
  from assms obtain a b where a: "find_sources js = Inr a" and b: "find_sinks js = Inr b"
    and v: "v = \<lparr>sourcesFound = a, sinksFound = b, possibleXSS = (a \<noteq> [] \<and> b \<noteq> [])\<rparr>"
    by (auto simp: correlate_def split: sum.splits)
  have "a \<noteq> [] \<longleftrightarrow> (\<exists>s \<in> set DOM_SOURCES. re_search s js)"
    using find_patterns_nonempty[of DOM_SOURCES js a] a sources_literal
    by (simp add: find_sources_def)
  moreover have "b \<noteq> [] \<longleftrightarrow> (\<exists>s \<in> set DOM_SINKS. re_search s js)"
    using find_patterns_nonempty[of DOM_SINKS js b] b sinks_literal
    by (simp add: find_sinks_def)
  ultimately show ?thesis by (simp add: v)
qed

text \<open>
  Claim C2. For every text the correlator gives a verdict, and the verdict is a possible DOM
  XSS exactly when some pattern of the source catalog and some pattern of the sink catalog
  occur in the text. A text with \<^verbatim>\<open>location.hash\<close> and no sink gives no; one with
  \<^verbatim>\<open>location.hash\<close> and \<^verbatim>\<open>innerHTML\<close> gives yes.
\<close>

theorem possible_xss_iff_source_and_sink:
  "(\<forall>js. \<exists>v. correlate js = Inr v \<and>
      (possibleXSS v \<longleftrightarrow>
        (\<exists>s \<in> set DOM_SOURCES. re_search s js) \<and> (\<exists>s \<in> set DOM_SINKS. re_search s js))) \<and>
   map_sum id possibleXSS (correlate (str ''var h = location.hash;'')) = Inr False \<and>
   map_sum id possibleXSS (correlate (str ''el.innerHTML = location.hash;'')) = Inr True"
proof -
  have "\<exists>v. correlate js = Inr v \<and>
      (possibleXSS v \<longleftrightarrow>
        (\<exists>s \<in> set DOM_SOURCES. re_search s js) \<and> (\<exists>s \<in> set DOM_SINKS. re_search s js))" for js
    using correlate_total[of js] correlate_verdict[of js] by blast
  moreover have "map_sum id possibleXSS (correlate (str ''var h = location.hash;'')) = Inr False"
    by code_simp
  moreover have
    "map_sum id possibleXSS (correlate (str ''el.innerHTML = location.hash;'')) = Inr True"
    by code_simp
  ultimately show ?thesis by blast
qed

subsection \<open>Reading a file\<close>

lemma decode_ignore_aux: "h = Ignore \<Longrightarrow> \<exists>t. decode h dec bs = Inr t"
proof (induction h dec bs rule: decode.induct)
  case (1 h dec)
  show ?case by simp
next
  case (2 h dec b bs)
  show ?case
  proof (cases "dec (b # bs)")
    case (Decoded cs n)
    with "2.IH"(1)[OF Decoded] "2.prems" show ?thesis by auto
  next
    case (Malformed n)
    with "2.IH"(2)[OF Malformed] "2.prems" show ?thesis by auto
  qed
qed

lemma decode_ignore: "\<exists>t. decode Ignore dec bs = Inr t"
  by (rule decode_ignore_aux) simp

lemma read_text_ignore: "\<exists>js. read_text enc Ignore (Some bs) = Inr js"
  using decode_ignore[of "decoder enc" bs] by (auto simp: read_text_def)




text \<open>
  The report of the DOM mode: it is written whole when the encoding has the arrow, and under
  ASCII the first line with a pattern ends the run.
\<close>

lemma write_matches_ok:
  "encodes enc ARROW \<Longrightarrow> snd (write_matches enc mk ms) = None"
  by (induction ms) auto

lemma write_report_ok: "encodes enc ARROW \<Longrightarrow> snd (write_report enc v) = None"
  using write_matches_ok[of enc SourceLine "sourcesFound v"]
    write_matches_ok[of enc SinkLine "sinksFound v"]
  by (auto simp: write_report_def split: prod.splits option.splits)

lemma dom_files_ok:
  assumes "encodes enc ARROW" and "\<forall>f \<in> set files. snd f \<noteq> None"
  shows "snd (dom_files enc files) = None"
  using assms(2)
proof (induction files)
  case Nil
  then show ?case by simp
next
  case (Cons f files)
  obtain fp bs where f: "f = (fp, Some bs)" using Cons.prems by (cases f) auto
  obtain js where js: "read_text enc Ignore (Some bs) = Inr js"
    using read_text_ignore by blast
  obtain v where v: "correlate js = Inr v" using correlate_total by blast
  from Cons write_report_ok[OF assms(1), of v] show ?case
    by (auto simp: f js v emit_def split: prod.splits option.splits)
qed

lemma dom_files_ascii:
  "dom_files ascii [(''a.js'', Some ''x.innerHTML = 1'')] =
     ([Wrote ''results/analysis/dom/a.js.domxss.txt'' (DomReport [SourcesHeading, SinksHeading])],
      Some UnicodeEncodeError)"
  by code_simp

section \<open>The batch loop of the DEEP mode\<close>





lemma run_deep_mode_empty_jsdir:
  "run_deep_mode True enc limit parse files (Some []) =
     ([Info ''Running DEEP MODE (AST static analysis)...'',
       Error ''--jsdir required for DEEP mode''], None)"
  by (simp add: run_deep_mode_def falsy_def emit_def)

end
